theory Spec2Isabelle
  imports Main "HOL-Library.Sublist"
begin

section \<open>The glyph table\<close>

text \<open>
  The module-level dictionary \<open>CHAR_MAP\<close> of \<^verbatim>\<open>yearly_contribution_text.py\<close>: each
  supported character is mapped to a list of seven strings over \<open>0\<close> and \<open>1\<close>. The
  dictionary literal is kept as an association list, in the order of the source, and
  \<open>dict.get\<close> is lookup in it (\<open>None\<close> where Python returns \<open>None\<close>).

  A Python string is modelled as a \<^typ>\<open>string\<close>: a list of characters with code points
  below 256.
\<close>

definition CHAR_MAP_items :: "(char \<times> string list) list" where
  "CHAR_MAP_items = [
    (CHR ''a'', [''0110'', ''1001'', ''1111'', ''1001'', ''1001'', ''0000'', ''0000'']),
    (CHR ''b'', [''1110'', ''1001'', ''1110'', ''1001'', ''1110'', ''0000'', ''0000'']),
    (CHR ''c'', [''0111'', ''1000'', ''1000'', ''1000'', ''0111'', ''0000'', ''0000'']),
    (CHR ''d'', [''1110'', ''1001'', ''1001'', ''1001'', ''1110'', ''0000'', ''0000'']),
    (CHR ''e'', [''1111'', ''1000'', ''1110'', ''1000'', ''1111'', ''0000'', ''0000'']),
    (CHR ''f'', [''1111'', ''1000'', ''1110'', ''1000'', ''1000'', ''0000'', ''0000'']),
    (CHR ''g'', [''0111'', ''1000'', ''1011'', ''1001'', ''0111'', ''0000'', ''0000'']),
    (CHR ''h'', [''1001'', ''1001'', ''1111'', ''1001'', ''1001'', ''0000'', ''0000'']),
    (CHR ''i'', [''111'', ''010'', ''010'', ''010'', ''111'', ''000'', ''000'']),
    (CHR ''j'', [''0011'', ''0001'', ''0001'', ''1001'', ''0110'', ''0000'', ''0000'']),
    (CHR ''k'', [''1001'', ''1010'', ''1100'', ''1010'', ''1001'', ''0000'', ''0000'']),
    (CHR ''l'', [''1000'', ''1000'', ''1000'', ''1000'', ''1111'', ''0000'', ''0000'']),
    (CHR ''m'', [''10001'', ''11011'', ''10101'', ''10001'', ''10001'', ''00000'', ''00000'']),
    (CHR ''n'', [''1001'', ''1101'', ''1011'', ''1001'', ''1001'', ''0000'', ''0000'']),
    (CHR ''o'', [''0110'', ''1001'', ''1001'', ''1001'', ''0110'', ''0000'', ''0000'']),
    (CHR ''p'', [''1110'', ''1001'', ''1110'', ''1000'', ''1000'', ''0000'', ''0000'']),
    (CHR ''q'', [''0110'', ''1001'', ''1001'', ''1011'', ''0111'', ''0000'', ''0000'']),
    (CHR ''r'', [''1110'', ''1001'', ''1110'', ''1010'', ''1001'', ''0000'', ''0000'']),
    (CHR ''s'', [''0111'', ''1000'', ''0110'', ''0001'', ''1110'', ''0000'', ''0000'']),
    (CHR ''t'', [''11111'', ''00100'', ''00100'', ''00100'', ''00100'', ''00000'', ''00000'']),
    (CHR ''u'', [''1001'', ''1001'', ''1001'', ''1001'', ''0110'', ''0000'', ''0000'']),
    (CHR ''v'', [''1001'', ''1001'', ''1001'', ''0101'', ''0010'', ''0000'', ''0000'']),
    (CHR ''w'', [''10001'', ''10001'', ''10101'', ''11011'', ''10001'', ''00000'', ''00000'']),
    (CHR ''x'', [''1001'', ''0101'', ''0010'', ''0101'', ''1001'', ''0000'', ''0000'']),
    (CHR ''y'', [''1001'', ''0101'', ''0010'', ''0010'', ''0010'', ''0000'', ''0000'']),
    (CHR ''z'', [''1111'', ''0001'', ''0010'', ''0100'', ''1111'', ''0000'', ''0000'']),
    (CHR ''0'', [''0110'', ''1001'', ''1001'', ''1001'', ''0110'', ''0000'', ''0000'']),
    (CHR ''1'', [''010'', ''110'', ''010'', ''010'', ''111'', ''000'', ''000'']),
    (CHR ''2'', [''0110'', ''1001'', ''0010'', ''0100'', ''1111'', ''0000'', ''0000'']),
    (CHR ''3'', [''1110'', ''0001'', ''0110'', ''0001'', ''1110'', ''0000'', ''0000'']),
    (CHR ''4'', [''1001'', ''1001'', ''1111'', ''0001'', ''0001'', ''0000'', ''0000'']),
    (CHR ''5'', [''1111'', ''1000'', ''1110'', ''0001'', ''1110'', ''0000'', ''0000'']),
    (CHR ''6'', [''0111'', ''1000'', ''1110'', ''1001'', ''0110'', ''0000'', ''0000'']),
    (CHR ''7'', [''1111'', ''0001'', ''0010'', ''0100'', ''0100'', ''0000'', ''0000'']),
    (CHR ''8'', [''0110'', ''1001'', ''0110'', ''1001'', ''0110'', ''0000'', ''0000'']),
    (CHR ''9'', [''0110'', ''1001'', ''0111'', ''0001'', ''1110'', ''0000'', ''0000''])]"

definition CHAR_MAP :: "char \<Rightarrow> string list option" where
  "CHAR_MAP = map_of CHAR_MAP_items"

section \<open>Strings\<close>

text \<open>
  \<open>str.lower()\<close> on code points below 256: the ASCII capitals and the Latin-1 capitals
  (\<open>U+00C0\<close> to \<open>U+00DE\<close>, without the multiplication sign \<open>U+00D7\<close>) move up by 32,
  every other character stays. On these code points the result has the length of the
  argument, so an index into the lowercased text is an index into the text. Beyond them
  this is not so: \<open>str.lower()\<close> turns \<open>U+0130\<close> into two code points. Such inputs are
  outside the model, and a statement that is to hold of them as well speaks of the
  lowercased text \<open>lower text\<close>, not of the text.
\<close>

definition lower_char :: "char \<Rightarrow> char" where
  "lower_char c =
     (let n = (of_char c :: nat)
      in if (65 \<le> n \<and> n \<le> 90) \<or> (192 \<le> n \<and> n \<le> 222 \<and> n \<noteq> 215)
         then char_of (n + 32) else c)"

definition lower :: "string \<Rightarrow> string" where
  "lower text = map lower_char text"

section \<open>The rasterizer\<close>

definition get_max_chars :: "int \<Rightarrow> int \<Rightarrow> int \<Rightarrow> int" where
  "get_max_chars graph_width avg_char_width spacing = graph_width div (avg_char_width + spacing)"

text \<open>
  The state of the loop of \<open>build_bitmap\<close>: the seven accumulator rows \<open>bitmap_rows\<close>
  and \<open>total_width\<close>.
\<close>

type_synonym raster = "string list \<times> nat"

text \<open>
  The inner loop \<^verbatim>\<open>for i in range(7): bitmap_rows[i] += char_bitmap[i] + "0"\<close>, as seven
  updates by index.
\<close>

definition append_glyph :: "string list \<Rightarrow> string list \<Rightarrow> string list" where
  "append_glyph char_bitmap bitmap_rows =
     foldl (\<lambda>rows i. rows[i := rows ! i @ char_bitmap ! i @ ''0'']) bitmap_rows [0..<7]"

text \<open>
  One pass through the body of the \<open>for char in text\<close> loop. \<open>Next\<close> is falling through
  to the next character (also by \<open>continue\<close>), \<open>Break\<close> is the \<open>break\<close>. The two warnings
  printed to the error stream are not part of the model. The test \<open>not char_bitmap\<close> holds
  for \<open>None\<close> and for an empty list.
\<close>

datatype flow = Next raster | Break

definition loop_body :: "char \<Rightarrow> raster \<Rightarrow> flow" where
  "loop_body char st =
     (case st of (bitmap_rows, total_width) \<Rightarrow>
        (case CHAR_MAP char of
           None \<Rightarrow> Next st
         | Some char_bitmap \<Rightarrow>
             if char_bitmap = [] then Next st
             else
               let char_width = length (char_bitmap ! 0) + 1
               in if total_width + char_width > 52 then Break
                  else Next (append_glyph char_bitmap bitmap_rows, total_width + char_width)))"

text \<open>
  The loop over the characters from index \<open>k\<close> on. Beside the final state it returns the
  index of the character at which \<open>break\<close> was executed, if it was: the source does not
  keep this index (it prints the character), the model records it so that statements can
  speak of the position of the truncation.
\<close>

fun for_loop :: "nat \<Rightarrow> string \<Rightarrow> raster \<Rightarrow> raster \<times> nat option" where
  "for_loop k [] st = (st, None)"
| "for_loop k (char # rest) st =
     (case loop_body char st of
        Break \<Rightarrow> (st, Some k)
      | Next st' \<Rightarrow> for_loop (Suc k) rest st')"

text \<open>
  \<open>build_bitmap\<close> up to the end of its loop: lowercase, cut to \<open>get_max_chars()\<close>
  characters (the defaults are 52, 4 and 1), run the loop from seven empty rows.
\<close>

definition accumulate :: "string \<Rightarrow> raster \<times> nat option" where
  "accumulate text =
     (let text1 = lower text;
          max_chars = get_max_chars 52 4 1;
          text2 = take (nat max_chars) text1
      in for_loop 0 text2 (replicate 7 '''', 0))"

text \<open>The last statement: a row of zeros on top, the last accumulated row dropped.\<close>

definition shift_down :: "string list \<Rightarrow> string list" where
  "shift_down bitmap_rows = replicate (length (bitmap_rows ! 0)) CHR ''0'' # butlast bitmap_rows"

definition build_bitmap :: "string \<Rightarrow> string list" where
  "build_bitmap text = shift_down (fst (fst (accumulate text)))"

definition truncated_at :: "string \<Rightarrow> nat option" where
  "truncated_at text = snd (accumulate text)"

text \<open>
  The variant the specification considers: \<open>build_bitmap\<close> without the statement
  \<^verbatim>\<open>text = text[:max_chars]\<close>, so that the width test of the loop is the only
  truncation. \<open>single_check_lowered\<close> is the variant after its first statement
  \<^verbatim>\<open>text = text.lower()\<close>: the loop and the shift, on the lowercased text.
\<close>

definition single_check_lowered :: "string \<Rightarrow> string list" where
  "single_check_lowered lowered =
     shift_down (fst (fst (for_loop 0 lowered (replicate 7 '''', 0))))"

definition build_bitmap_single_check :: "string \<Rightarrow> string list" where
  "build_bitmap_single_check text = single_check_lowered (lower text)"

text \<open>
  Row \<open>i\<close> of what one character contributes to the accumulator: its glyph row and one
  spacing column, or nothing when the character has no glyph.
\<close>

abbreviation glyph_row :: "nat \<Rightarrow> char \<Rightarrow> string" where
  "glyph_row i c \<equiv> (case CHAR_MAP c of None \<Rightarrow> [] | Some g \<Rightarrow> g ! i @ ''0'')"

section \<open>Dates\<close>

text \<open>
  A \<open>datetime.date\<close> is modelled by its proleptic Gregorian ordinal
  (\<open>date.toordinal()\<close>, day 1 is 0001-01-01), so that adding a \<open>timedelta\<close> of \<open>n\<close>
  days is adding \<open>n\<close>. The standard library computes the ordinal of January 1 as
  the days before the year plus one, and \<open>weekday()\<close> as \<open>(ordinal + 6) % 7\<close>, Monday
  being 0 and Sunday 6. \<open>datetime.date(year, 1, 1)\<close> raises for a year outside 1 to
  9999; \<open>write_string_to_git\<close> builds it only after its test of the year, for a year
  from 2000 to 2100, and every date it computes from there lies within the following year.
\<close>

type_synonym date = int

definition days_before_year :: "int \<Rightarrow> int" where
  "days_before_year year = (let y = year - 1 in y * 365 + y div 4 - y div 100 + y div 400)"

definition january_first :: "int \<Rightarrow> date" where
  "january_first year = days_before_year year + 1"

definition weekday :: "date \<Rightarrow> int" where
  "weekday d = (d + 6) mod 7"

text \<open>
  The loop \<^verbatim>\<open>while d.weekday() != 6: d += datetime.timedelta(days=1)\<close> of
  \<open>write_string_to_git\<close>.
\<close>

function first_sunday :: "date \<Rightarrow> date" where
  "first_sunday d = (if weekday d \<noteq> 6 then first_sunday (d + 1) else d)"
  by pat_completeness auto
termination
  by (relation "measure (\<lambda>d. nat (6 - weekday d))") (auto simp: weekday_def, presburger)

declare first_sunday.simps [simp del]

section \<open>Emitting the commits\<close>

text \<open>
  The outside world of \<open>write_string_to_git\<close> is two parameters: whether
  \<^verbatim>\<open>git rev-parse --git-dir\<close> succeeds (\<open>in_git_repo\<close>), and the result of
  \<open>generate_commit\<close> for a date. A run is described by the list of dates for which
  \<open>generate_commit\<close> was called, in the order of the calls, and by how it ended.
  The messages printed and the formatting of the date as a string are not modelled.
\<close>

datatype error_msg = UnusualYear int | NotGitRepository | NoValidCharacters

datatype finish = SysExit nat error_msg | Completed nat nat | Previewed "string list"

definition commit_date :: "date \<Rightarrow> nat \<Rightarrow> nat \<Rightarrow> date" where
  "commit_date d row col = d + int (row + col * 7)"

text \<open>The body of the two nested loops: \<open>attempted\<close>, \<open>commit_count\<close>, \<open>failed_commits\<close>.\<close>

type_synonym tally = "date list \<times> nat \<times> nat"

definition emit_cell :: "(date \<Rightarrow> bool) \<Rightarrow> string list \<Rightarrow> date \<Rightarrow> nat \<Rightarrow> nat \<Rightarrow> tally \<Rightarrow> tally" where
  "emit_cell generate_commit bitmap_rows d col row st =
     (case st of (attempted, commit_count, failed_commits) \<Rightarrow>
        if bitmap_rows ! row ! col = CHR ''1'' then
          let date = commit_date d row col
          in if generate_commit date then (attempted @ [date], commit_count + 1, failed_commits)
             else (attempted @ [date], commit_count, failed_commits + 1)
        else st)"

definition emit_column :: "(date \<Rightarrow> bool) \<Rightarrow> string list \<Rightarrow> date \<Rightarrow> tally \<Rightarrow> nat \<Rightarrow> tally" where
  "emit_column generate_commit bitmap_rows d st col =
     foldl (\<lambda>st row. emit_cell generate_commit bitmap_rows d col row st) st [0..<7]"

definition emit_all :: "(date \<Rightarrow> bool) \<Rightarrow> string list \<Rightarrow> date \<Rightarrow> tally" where
  "emit_all generate_commit bitmap_rows d =
     foldl (emit_column generate_commit bitmap_rows d) ([], 0, 0) [0..<length (bitmap_rows ! 0)]"

definition write_string_to_git ::
  "bool \<Rightarrow> (date \<Rightarrow> bool) \<Rightarrow> string \<Rightarrow> int \<Rightarrow> date list \<times> finish" where
  "write_string_to_git in_git_repo generate_commit text year =
     (if year < 2000 \<or> year > 2100 then ([], SysExit 1 (UnusualYear year))
      else if \<not> in_git_repo then ([], SysExit 1 NotGitRepository)
      else
        let bitmap_rows = build_bitmap text;
            d = first_sunday (january_first year)
        in case emit_all generate_commit bitmap_rows d of
             (attempted, commit_count, failed_commits) \<Rightarrow>
               (attempted, Completed commit_count failed_commits))"

text \<open>
  The script body after argument parsing: \<open>text\<close>, \<open>year\<close> and \<open>preview\<close> are the parsed
  arguments. \<open>any(bitmap)\<close> holds when some row is a non-empty string.
\<close>

definition main ::
  "bool \<Rightarrow> (date \<Rightarrow> bool) \<Rightarrow> string \<Rightarrow> int \<Rightarrow> bool \<Rightarrow> date list \<times> finish" where
  "main in_git_repo generate_commit text year preview =
     (let bitmap = build_bitmap text
      in if \<not> list_ex (\<lambda>row. row \<noteq> []) bitmap then ([], SysExit 1 NoValidCharacters)
         else if preview then ([], Previewed bitmap)
         else write_string_to_git in_git_repo generate_commit text year)"

section \<open>Properties of the glyph table\<close>

lemma glyph_table:
  "\<forall>(c, g) \<in> set CHAR_MAP_items.
     length g = 7 \<and>
     (\<forall>r \<in> set g. length r = length (g ! 0) \<and> set r \<subseteq> {CHR ''0'', CHR ''1''}) \<and>
     3 \<le> length (g ! 0) \<and> length (g ! 0) \<le> 5 \<and>
     set (g ! 5) \<subseteq> {CHR ''0''} \<and> set (g ! 6) \<subseteq> {CHR ''0''}"
  by (simp add: CHAR_MAP_items_def)

lemma CHAR_MAP_glyph:
  assumes "CHAR_MAP c = Some g"
  shows "length g = 7" and "\<forall>r \<in> set g. length r = length (g ! 0)"
    and "\<forall>r \<in> set g. set r \<subseteq> {CHR ''0'', CHR ''1''}"
    and "3 \<le> length (g ! 0)" and "length (g ! 0) \<le> 5"
    and "set (g ! 5) \<subseteq> {CHR ''0''}" and "set (g ! 6) \<subseteq> {CHR ''0''}"
proof -
  from assms have "(c, g) \<in> set CHAR_MAP_items"
    unfolding CHAR_MAP_def by (rule map_of_SomeD)
  with glyph_table have *: "length g = 7 \<and>
     (\<forall>r \<in> set g. length r = length (g ! 0) \<and> set r \<subseteq> {CHR ''0'', CHR ''1''}) \<and>
     3 \<le> length (g ! 0) \<and> length (g ! 0) \<le> 5 \<and>
     set (g ! 5) \<subseteq> {CHR ''0''} \<and> set (g ! 6) \<subseteq> {CHR ''0''}"
    by blast
  from * show "length g = 7" by blast
  from * show "\<forall>r \<in> set g. length r = length (g ! 0)" by blast
  from * show "\<forall>r \<in> set g. set r \<subseteq> {CHR ''0'', CHR ''1''}" by blast
  from * show "3 \<le> length (g ! 0)" by blast
  from * show "length (g ! 0) \<le> 5" by blast
  from * show "set (g ! 5) \<subseteq> {CHR ''0''}" by blast
  from * show "set (g ! 6) \<subseteq> {CHR ''0''}" by blast
qed

lemma glyph_row_length:
  assumes "i < 7"
  shows "length (glyph_row i c) = length (glyph_row 0 c)"
proof (cases "CHAR_MAP c")
  case None
  then show ?thesis by simp
next
  case (Some g)
  from CHAR_MAP_glyph(1) [OF Some] assms have "g ! i \<in> set g"
    by simp
  with CHAR_MAP_glyph(2) [OF Some] have "length (g ! i) = length (g ! 0)"
    by blast
  with Some show ?thesis by simp
qed

lemma glyph_cols_length:
  assumes "i < 7"
  shows "length (concat (map (glyph_row i) cs)) = length (concat (map (glyph_row 0) cs))"
proof (induction cs)
  case Nil
  show ?case by simp
next
  case (Cons c cs)
  have "length (glyph_row i c) = length (glyph_row 0 c)"
    using assms by (rule glyph_row_length)
  with Cons.IH show ?case
    by (simp only: list.map concat.simps length_append)
qed

lemma glyph_row_5_zero: "set (glyph_row 5 c) \<subseteq> {CHR ''0''}"
proof (cases "CHAR_MAP c")
  case None
  then show ?thesis by simp
next
  case (Some g)
  with CHAR_MAP_glyph(6) [OF Some] show ?thesis by simp
qed

lemma glyph_cols_5_zero: "set (concat (map (glyph_row 5) cs)) \<subseteq> {CHR ''0''}"
proof (induction cs)
  case Nil
  show ?case by simp
next
  case (Cons c cs)
  from glyph_row_5_zero [of c] Cons.IH show ?case
    by (simp only: list.map concat.simps set_append Un_subset_iff)
qed

section \<open>The loop of \<open>build_bitmap\<close>\<close>

lemma upt_7: "[0..<7] = [0, 1, 2, 3, 4, 5, 6::nat]"
  by (simp add: upt_rec)

lemma nth_7: "i < 7 \<Longrightarrow> map f [0..<7] ! i = f i"
  by (simp del: upt_Suc)

lemma nth_map_upt0: "i < n \<Longrightarrow> map f [0..<n] ! i = f i"
  by simp

lemma length_7_cases:
  assumes "length (rows :: 'a list) = 7"
  obtains r0 r1 r2 r3 r4 r5 r6 where "rows = [r0, r1, r2, r3, r4, r5, r6]"
proof -
  from assms have "rows = map (\<lambda>i. rows ! i) [0..<7]"
    by (metis map_nth)
  then have "rows = [rows ! 0, rows ! 1, rows ! 2, rows ! 3, rows ! 4, rows ! 5, rows ! 6]"
    by (simp add: upt_7)
  then show thesis by (rule that)
qed

lemma append_glyph_map:
  assumes "length bitmap_rows = 7"
  shows "append_glyph g bitmap_rows = map (\<lambda>i. bitmap_rows ! i @ g ! i @ ''0'') [0..<7]"
proof -
  from assms obtain r0 r1 r2 r3 r4 r5 r6 where "bitmap_rows = [r0, r1, r2, r3, r4, r5, r6]"
    by (rule length_7_cases)
  then show ?thesis
    by (simp add: append_glyph_def upt_7)
qed

lemma loop_body_unsupported:
  assumes "CHAR_MAP c = None"
  shows "loop_body c st = Next st"
  using assms by (simp add: loop_body_def split: prod.splits)

lemma loop_body_overflow:
  assumes "CHAR_MAP c = Some g" and "52 < tw + (length (g ! 0) + 1)"
  shows "loop_body c (rows, tw) = Break"
proof -
  from CHAR_MAP_glyph(1) [OF assms(1)] have "g \<noteq> []" by auto
  with assms show ?thesis
    by (simp add: loop_body_def Let_def del: One_nat_def)
qed

lemma loop_body_supported:
  assumes "CHAR_MAP c = Some g" and "length rows = 7"
  shows "loop_body c (rows, tw) =
     (if tw + (length (g ! 0) + 1) > 52 then Break
      else Next (map (\<lambda>i. rows ! i @ glyph_row i c) [0..<7], tw + length (glyph_row 0 c)))"
proof -
  from CHAR_MAP_glyph(1) [OF assms(1)] have "g \<noteq> []" by auto
  with assms show ?thesis
    by (simp add: loop_body_def Let_def append_glyph_map del: One_nat_def)
qed

lemma for_loop_columns:
  assumes "length rows = 7"
  shows "\<exists>j \<le> length t.
           fst (for_loop k t (rows, tw)) =
             (map (\<lambda>i. rows ! i @ concat (map (glyph_row i) (take j t))) [0..<7],
              tw + length (concat (map (glyph_row 0) (take j t)))) \<and>
           snd (for_loop k t (rows, tw)) = (if j < length t then Some (k + j) else None)"
  using assms
proof (induction t arbitrary: k rows tw)
  case Nil
  then have "map (\<lambda>i. rows ! i) [0..<7] = rows"
    by (metis map_nth)
  then show ?case by simp
next
  case (Cons c t)
  show ?case
  proof (cases "CHAR_MAP c")
    case None
    from Cons.IH [OF Cons.prems, of "Suc k" tw] obtain j where j: "j \<le> length t"
      "fst (for_loop (Suc k) t (rows, tw)) =
             (map (\<lambda>i. rows ! i @ concat (map (glyph_row i) (take j t))) [0..<7],
              tw + length (concat (map (glyph_row 0) (take j t))))"
      "snd (for_loop (Suc k) t (rows, tw)) = (if j < length t then Some (Suc k + j) else None)"
      by blast
    have "for_loop k (c # t) (rows, tw) = for_loop (Suc k) t (rows, tw)"
      by (simp add: loop_body_unsupported [OF None])
    with j None show ?thesis
      by (intro exI [of _ "Suc j"]) simp
  next
    case (Some g)
    note body = loop_body_supported [OF Some Cons.prems, of tw]
    show ?thesis
    proof (cases "tw + (length (g ! 0) + 1) > 52")
      case True
      have "map (\<lambda>i. rows ! i) [0..<7] = rows"
        using Cons.prems by (metis map_nth)
      with True body show ?thesis
        by (intro exI [of _ 0]) simp
    next
      case False
      let ?rows = "map (\<lambda>i. rows ! i @ glyph_row i c) [0..<7]"
      let ?tw = "tw + length (glyph_row 0 c)"
      have len: "length ?rows = 7" by simp
      from Cons.IH [OF len, of "Suc k" ?tw] obtain j where j: "j \<le> length t"
        "fst (for_loop (Suc k) t (?rows, ?tw)) =
             (map (\<lambda>i. ?rows ! i @ concat (map (glyph_row i) (take j t))) [0..<7],
              ?tw + length (concat (map (glyph_row 0) (take j t))))"
        "snd (for_loop (Suc k) t (?rows, ?tw)) = (if j < length t then Some (Suc k + j) else None)"
        by blast
      have step: "for_loop k (c # t) (rows, tw) = for_loop (Suc k) t (?rows, ?tw)"
        using False body by simp
      have rows: "map (\<lambda>i. ?rows ! i @ concat (map (glyph_row i) (take j t))) [0..<7] =
          map (\<lambda>i. rows ! i @ concat (map (glyph_row i) (take (Suc j) (c # t)))) [0..<7]"
      proof (rule map_cong)
        fix i assume "i \<in> set [0..<7]"
        then have "i < 7" by simp
        then have "?rows ! i = rows ! i @ glyph_row i c" by (rule nth_7)
        then show "?rows ! i @ concat (map (glyph_row i) (take j t)) =
           rows ! i @ concat (map (glyph_row i) (take (Suc j) (c # t)))"
          by simp
      qed simp
      from j(1) step show ?thesis
        unfolding step j(2,3) rows by (intro exI [of _ "Suc j"]) simp
    qed
  qed
qed

lemma for_loop_width:
  assumes "tw \<le> 52"
  shows "snd (fst (for_loop k t (rows, tw))) \<le> 52"
  using assms
proof (induction t arbitrary: k rows tw)
  case Nil
  then show ?case by simp
next
  case (Cons c t)
  show ?case
  proof (cases "loop_body c (rows, tw)")
    case Break
    with Cons.prems show ?thesis by simp
  next
    case (Next st)
    obtain rows' tw' where st: "st = (rows', tw')" by (cases st)
    from Next st have "tw' \<le> 52"
      using Cons.prems
      by (auto simp: loop_body_def Let_def split: option.splits if_splits)
    from Cons.IH [OF this] Next st show ?thesis by simp
  qed
qed

lemma for_loop_break_prefix:
  assumes "for_loop k t st = (st', Some j)"
  shows "k \<le> j \<and> j < k + length t \<and> for_loop k (take (j - k) t) st = (st', None)"
  using assms
proof (induction t arbitrary: k st)
  case Nil
  then show ?case by simp
next
  case (Cons c t)
  show ?case
  proof (cases "loop_body c st")
    case Break
    with Cons.prems show ?thesis by simp
  next
    case (Next st2)
    with Cons.prems have "for_loop (Suc k) t st2 = (st', Some j)" by simp
    from Cons.IH [OF this] have ih: "Suc k \<le> j" "j < Suc k + length t"
      "for_loop (Suc k) (take (j - Suc k) t) st2 = (st', None)"
      by simp_all
    from ih(1) have "j - k = Suc (j - Suc k)" by simp
    with ih Next show ?thesis by simp
  qed
qed

lemma max_chars_default: "nat (get_max_chars 52 4 1) = 10"
  by (simp add: get_max_chars_def)

lemma length_lower: "length (lower s) = length s"
  by (simp add: lower_def)

lemma take_lower: "take n (lower s) = lower (take n s)"
  by (simp add: lower_def take_map)

lemma accumulate_for_loop:
  "accumulate s = for_loop 0 (take 10 (lower s)) (replicate 7 '''', 0)"
  by (simp add: accumulate_def Let_def max_chars_default)

lemma accumulate_columns:
  "\<exists>j. j \<le> 10 \<and> j \<le> length s \<and>
     fst (accumulate s) =
       (map (\<lambda>i. concat (map (glyph_row i) (take j (lower s)))) [0..<7],
        length (concat (map (glyph_row 0) (take j (lower s))))) \<and>
     truncated_at s = (if j < min 10 (length s) then Some j else None)"
proof -
  let ?t = "take 10 (lower s)"
  let ?rows = "replicate 7 ''''"
  note acc = accumulate_for_loop [of s]
  have "length ?rows = 7" by simp
  from for_loop_columns [OF this, of ?t 0 0] obtain j where j: "j \<le> length ?t"
    "fst (for_loop 0 ?t (?rows, 0)) =
       (map (\<lambda>i. ?rows ! i @ concat (map (glyph_row i) (take j ?t))) [0..<7],
        0 + length (concat (map (glyph_row 0) (take j ?t))))"
    "snd (for_loop 0 ?t (?rows, 0)) = (if j < length ?t then Some (0 + j) else None)"
    by blast
  from j(1) have j10: "j \<le> 10" and jlen: "j \<le> length s"
    by (simp_all add: length_lower)
  from j10 have tk: "take j ?t = take j (lower s)"
    by (simp add: min_absorb1)
  have rows: "map (\<lambda>i. ?rows ! i @ concat (map (glyph_row i) (take j ?t))) [0..<7] =
      map (\<lambda>i. concat (map (glyph_row i) (take j (lower s)))) [0..<7]"
  proof (rule map_cong)
    fix i assume "i \<in> set [0..<7]"
    then have "i < 7" by simp
    then have e: "?rows ! i = ''''" by simp
    show "?rows ! i @ concat (map (glyph_row i) (take j ?t)) =
        concat (map (glyph_row i) (take j (lower s)))"
      unfolding e tk by (rule append_Nil)
  qed simp
  have len: "length ?t = min 10 (length s)"
    by (simp add: length_lower min.commute)
  have "fst (accumulate s) =
       (map (\<lambda>i. concat (map (glyph_row i) (take j (lower s)))) [0..<7],
        length (concat (map (glyph_row 0) (take j (lower s)))))"
    unfolding acc j(2) rows tk by simp
  moreover have "truncated_at s = (if j < min 10 (length s) then Some j else None)"
    unfolding truncated_at_def acc j(3) len by simp
  ultimately show ?thesis using j10 jlen by blast
qed

lemma accumulate_width: "snd (fst (accumulate s)) \<le> 52"
proof -
  have "snd (fst (for_loop 0 (take 10 (lower s)) (replicate 7 '''', 0))) \<le> 52"
    by (rule for_loop_width) simp
  then show ?thesis
    by (simp only: accumulate_for_loop)
qed

lemma build_bitmap_columns:
  obtains j where "j \<le> 10" and "j \<le> length s"
    and "fst (fst (accumulate s)) =
       map (\<lambda>i. concat (map (glyph_row i) (take j (lower s)))) [0..<7]"
    and "build_bitmap s =
       replicate (length (concat (map (glyph_row 0) (take j (lower s))))) CHR ''0'' #
       map (\<lambda>i. concat (map (glyph_row i) (take j (lower s)))) [0..<6]"
    and "length (concat (map (glyph_row 0) (take j (lower s)))) \<le> 52"
    and "truncated_at s = (if j < min 10 (length s) then Some j else None)"
proof -
  from accumulate_columns [of s] obtain j where j: "j \<le> 10" "j \<le> length s"
    "fst (accumulate s) =
       (map (\<lambda>i. concat (map (glyph_row i) (take j (lower s)))) [0..<7],
        length (concat (map (glyph_row 0) (take j (lower s)))))"
    "truncated_at s = (if j < min 10 (length s) then Some j else None)"
    by blast
  let ?f = "\<lambda>i. concat (map (glyph_row i) (take j (lower s)))"
  have "butlast (map ?f [0..<7]) = map ?f (butlast [0..<7])"
    by (rule map_butlast [symmetric])
  also have "butlast [0..<7] = [0..<6::nat]"
    by (simp add: upt_rec)
  finally have bl: "butlast (map ?f [0..<7]) = map ?f [0..<6]" .
  have z: "map ?f [0..<7] ! 0 = ?f 0"
    by (rule nth_7) simp
  have b: "build_bitmap s = replicate (length (?f 0)) CHR ''0'' # map ?f [0..<6]"
    unfolding build_bitmap_def shift_down_def j(3) fst_conv bl z ..
  from j(3) have a: "fst (fst (accumulate s)) = map ?f [0..<7]"
    by simp
  from accumulate_width [of s] have w: "length (?f 0) \<le> 52"
    unfolding j(3) by simp
  from j(1,2) a b w j(4) show thesis by (rule that)
qed

lemma build_bitmap_length: "length (build_bitmap s) = 7"
proof -
  obtain j where b: "build_bitmap s =
       replicate (length (concat (map (glyph_row 0) (take j (lower s))))) CHR ''0'' #
       map (\<lambda>i. concat (map (glyph_row i) (take j (lower s)))) [0..<6]"
    by (rule build_bitmap_columns)
  show ?thesis unfolding b by simp
qed

lemma build_bitmap_row_length:
  assumes "r \<in> set (build_bitmap s)"
  shows "length r = length (build_bitmap s ! 0)"
proof -
  obtain j where b: "build_bitmap s =
       replicate (length (concat (map (glyph_row 0) (take j (lower s))))) CHR ''0'' #
       map (\<lambda>i. concat (map (glyph_row i) (take j (lower s)))) [0..<6]"
    by (rule build_bitmap_columns)
  let ?f = "\<lambda>i. concat (map (glyph_row i) (take j (lower s)))"
  have z: "length (build_bitmap s ! 0) = length (?f 0)"
    unfolding b by simp
  from assms have "r = replicate (length (?f 0)) CHR ''0'' \<or> r \<in> ?f ` {0..<6}"
    unfolding b by (simp del: upt_Suc)
  then show ?thesis
  proof
    assume "r = replicate (length (?f 0)) CHR ''0''"
    then show ?thesis unfolding z by simp
  next
    assume "r \<in> ?f ` {0..<6}"
    then obtain i where "i < 6" and r: "r = ?f i" by auto
    then have "i < 7" by simp
    then show ?thesis unfolding r z by (rule glyph_cols_length)
  qed
qed

lemma build_bitmap_row_bound:
  assumes "r \<in> set (build_bitmap s)"
  shows "length r \<le> 52"
proof -
  obtain j where b: "build_bitmap s =
       replicate (length (concat (map (glyph_row 0) (take j (lower s))))) CHR ''0'' #
       map (\<lambda>i. concat (map (glyph_row i) (take j (lower s)))) [0..<6]"
    and w: "length (concat (map (glyph_row 0) (take j (lower s)))) \<le> 52"
    by (rule build_bitmap_columns)
  have "length (build_bitmap s ! 0) = length (concat (map (glyph_row 0) (take j (lower s))))"
    unfolding b by simp
  with w build_bitmap_row_length [OF assms] show ?thesis by simp
qed

lemma build_bitmap_empty:
  assumes "length (build_bitmap s ! 0) = 0"
  shows "build_bitmap s = replicate 7 ''''"
proof (rule replicate_eqI)
  show "length (build_bitmap s) = 7" by (rule build_bitmap_length)
next
  fix r assume "r \<in> set (build_bitmap s)"
  then have "length r = length (build_bitmap s ! 0)" by (rule build_bitmap_row_length)
  with assms show "r = ''''" by simp
qed

section \<open>Dates and the emission loops\<close>

lemma first_sunday_closed_form: "first_sunday d = d + (6 - weekday d)"
proof (induction d rule: first_sunday.induct)
  case (1 d)
  show ?case
  proof (cases "weekday d = 6")
    case True
    then show ?thesis by (simp add: first_sunday.simps)
  next
    case False
    then have "first_sunday d = first_sunday (d + 1)"
      by (simp add: first_sunday.simps)
    also from False have "\<dots> = d + 1 + (6 - weekday (d + 1))"
      by (rule "1.IH")
    also from False have "weekday (d + 1) = weekday d + 1"
      unfolding weekday_def by presburger
    finally show ?thesis by simp
  qed
qed

lemma first_sunday_is_sunday: "weekday (first_sunday d) = 6"
  unfolding first_sunday_closed_form weekday_def by presburger

lemma first_sunday_bounds: "d \<le> first_sunday d \<and> first_sunday d < d + 7"
  unfolding first_sunday_closed_form weekday_def by presburger

lemma first_sunday_least:
  assumes "d \<le> d'" and "weekday d' = 6"
  shows "first_sunday d \<le> d'"
  using assms unfolding first_sunday_closed_form weekday_def by presburger

lemma emit_cells_attempted:
  "fst (foldl (\<lambda>st row. emit_cell gc rows d col row st) st rs) =
     fst st @ concat (map (\<lambda>row. if rows ! row ! col = CHR ''1''
                                  then [commit_date d row col] else []) rs)"
proof (induction rs arbitrary: st)
  case Nil
  show ?case by simp
next
  case (Cons r rs)
  obtain a n m where st: "st = (a, n, m)" by (cases st)
  have "fst (emit_cell gc rows d col r st) =
      fst st @ (if rows ! r ! col = CHR ''1'' then [commit_date d r col] else [])"
    unfolding st by (simp add: emit_cell_def Let_def)
  then show ?case
    by (simp add: Cons.IH)
qed

lemma emit_columns_attempted:
  "fst (foldl (emit_column gc rows d) st cols) =
     fst st @ concat (map (\<lambda>col. concat (map (\<lambda>row. if rows ! row ! col = CHR ''1''
                                  then [commit_date d row col] else []) [0..<7])) cols)"
proof (induction cols arbitrary: st)
  case Nil
  show ?case by simp
next
  case (Cons c cols)
  have "fst (emit_column gc rows d st c) =
      fst st @ concat (map (\<lambda>row. if rows ! row ! c = CHR ''1''
                                  then [commit_date d row c] else []) [0..<7])"
    unfolding emit_column_def by (rule emit_cells_attempted)
  then show ?case
    by (simp add: Cons.IH del: upt_Suc)
qed

lemma emit_all_attempted:
  "fst (emit_all gc rows d) =
     [commit_date d row col. col \<leftarrow> [0..<length (rows ! 0)], row \<leftarrow> [0..<7],
        rows ! row ! col = CHR ''1'']"
  unfolding emit_all_def emit_columns_attempted by simp

lemma write_string_to_git_attempted:
  assumes "2000 \<le> year" and "year \<le> 2100"
  shows "fst (write_string_to_git True gc s year) =
     [first_sunday (january_first year) + int (col * 7 + row).
        col \<leftarrow> [0..<length (build_bitmap s ! 0)], row \<leftarrow> [0..<7],
        build_bitmap s ! row ! col = CHR ''1'']"
proof -
  let ?e = "emit_all gc (build_bitmap s) (first_sunday (january_first year))"
  obtain a n m where e: "?e = (a, n, m)" by (cases ?e)
  from assms have "fst (write_string_to_git True gc s year) = fst ?e"
    by (simp add: write_string_to_git_def Let_def e)
  then show ?thesis
    by (simp only: emit_all_attempted commit_date_def add.commute [of _ "_ * 7"])
qed

lemma for_loop_append:
  "for_loop k (xs @ ys) st =
     (case for_loop k xs st of
        (st', None) \<Rightarrow> for_loop (k + length xs) ys st'
      | (st', Some j) \<Rightarrow> (st', Some j))"
proof (induction xs arbitrary: k st)
  case Nil
  show ?case by simp
next
  case (Cons c xs)
  show ?case
  proof (cases "loop_body c st")
    case Break
    then show ?thesis by simp
  next
    case (Next st2)
    then show ?thesis by (simp add: Cons.IH split: prod.splits option.splits)
  qed
qed

lemma shift_down_prefix:
  assumes "length rows = 7" and "i < 7"
  shows "prefix (shift_down rows ! i) (shift_down (map (\<lambda>i. rows ! i @ X i) [0..<7]) ! i)"
proof (cases i)
  case 0
  have "map (\<lambda>i. rows ! i @ X i) [0..<7] ! 0 = rows ! 0 @ X 0"
    by (rule nth_map_upt0) simp
  then have "shift_down (map (\<lambda>i. rows ! i @ X i) [0..<7]) ! 0 =
      replicate (length (rows ! 0)) CHR ''0'' @ replicate (length (X 0)) CHR ''0''"
    unfolding shift_down_def by (simp add: replicate_add)
  moreover have "shift_down rows ! 0 = replicate (length (rows ! 0)) CHR ''0''"
    unfolding shift_down_def by simp
  ultimately show ?thesis unfolding 0 by simp
next
  case (Suc n)
  with assms have n: "n < 6" by simp
  with assms have "shift_down rows ! Suc n = rows ! n"
    unfolding shift_down_def by (simp add: nth_butlast)
  moreover have "shift_down (map (\<lambda>i. rows ! i @ X i) [0..<7]) ! Suc n =
      map (\<lambda>i. rows ! i @ X i) [0..<7] ! n"
    unfolding shift_down_def using n by (simp add: nth_butlast del: upt_Suc)
  moreover have "map (\<lambda>i. rows ! i @ X i) [0..<7] ! n = rows ! n @ X n"
    by (rule nth_map_upt0) (use n in simp)
  ultimately show ?thesis unfolding Suc by simp
qed

lemma build_bitmap_prefix_single_check:
  assumes "i < 7"
  shows "prefix (build_bitmap s ! i) (build_bitmap_single_check s ! i)"
proof -
  let ?t1 = "take 10 (lower s)" and ?t2 = "drop 10 (lower s)"
  let ?init = "(replicate 7 '''', 0::nat)"
  obtain rows tw r where acc: "for_loop 0 ?t1 ?init = ((rows, tw), r)"
    by (cases "for_loop 0 ?t1 ?init") auto
  have split: "for_loop 0 (lower s) ?init =
     (case for_loop 0 ?t1 ?init of
        (st', None) \<Rightarrow> for_loop (0 + length ?t1) ?t2 st'
      | (st', Some j) \<Rightarrow> (st', Some j))"
    using for_loop_append [of 0 ?t1 ?t2 ?init] by (simp only: append_take_drop_id)
  have b: "build_bitmap s = shift_down rows"
    by (simp add: build_bitmap_def accumulate_for_loop acc)
  show ?thesis
  proof (cases r)
    case (Some j)
    with split acc have "build_bitmap_single_check s = shift_down rows"
      by (simp add: build_bitmap_single_check_def single_check_lowered_def)
    with b show ?thesis by simp
  next
    case None
    obtain j where "fst (fst (accumulate s)) =
       map (\<lambda>i. concat (map (glyph_row i) (take j (lower s)))) [0..<7]"
      by (rule build_bitmap_columns)
    then have len: "length rows = 7"
      by (simp add: accumulate_for_loop acc)
    from for_loop_columns [OF len, of ?t2 "0 + length ?t1" tw] obtain j2 where
      "fst (for_loop (0 + length ?t1) ?t2 (rows, tw)) =
         (map (\<lambda>i. rows ! i @ concat (map (glyph_row i) (take j2 ?t2))) [0..<7],
          tw + length (concat (map (glyph_row 0) (take j2 ?t2))))"
      by blast
    with split acc None have "build_bitmap_single_check s =
        shift_down (map (\<lambda>i. rows ! i @ concat (map (glyph_row i) (take j2 ?t2))) [0..<7])"
      by (simp add: build_bitmap_single_check_def single_check_lowered_def)
    with b shift_down_prefix [OF len assms] show ?thesis by simp
  qed
qed

lemma build_bitmap_break_single_check:
  assumes "truncated_at s = Some k"
  shows "build_bitmap s = build_bitmap_single_check s"
proof -
  let ?t1 = "take 10 (lower s)" and ?t2 = "drop 10 (lower s)"
  let ?init = "(replicate 7 '''', 0::nat)"
  obtain st where run: "for_loop 0 ?t1 ?init = (st, Some k)"
    using assms unfolding truncated_at_def accumulate_for_loop
    by (cases "for_loop 0 ?t1 ?init") simp
  have "for_loop 0 (?t1 @ ?t2) ?init = (st, Some k)"
    unfolding for_loop_append run by simp
  then have "for_loop 0 (lower s) ?init = (st, Some k)"
    by (simp only: append_take_drop_id)
  with run show ?thesis
    by (simp add: build_bitmap_def accumulate_for_loop build_bitmap_single_check_def
        single_check_lowered_def)
qed

lemma build_bitmap_short_single_check:
  assumes "length (lower s) \<le> 10"
  shows "build_bitmap s = build_bitmap_single_check s"
proof -
  from assms have "take 10 (lower s) = lower s"
    by (rule take_all)
  then show ?thesis
    by (simp add: build_bitmap_def accumulate_for_loop build_bitmap_single_check_def
        single_check_lowered_def)
qed

section \<open>The bitmap returned by \<open>build_bitmap\<close>\<close>

text \<open>
  Claim C1. For every input string, \<open>build_bitmap\<close> returns exactly 7 rows, all rows have
  the same length, and row 0 consists of \<open>0\<close> characters only.
\<close>

theorem build_bitmap_shape:
  "length (build_bitmap s) = 7 \<and>
   (\<forall>r \<in> set (build_bitmap s). length r = length (build_bitmap s ! 0)) \<and>
   build_bitmap s ! 0 = replicate (length (build_bitmap s ! 0)) CHR ''0''"
proof -
  obtain j where b: "build_bitmap s =
       replicate (length (concat (map (glyph_row 0) (take j (lower s))))) CHR ''0'' #
       map (\<lambda>i. concat (map (glyph_row i) (take j (lower s)))) [0..<6]"
    by (rule build_bitmap_columns)
  have "build_bitmap s ! 0 = replicate (length (build_bitmap s ! 0)) CHR ''0''"
    unfolding b by simp
  with build_bitmap_length [of s] build_bitmap_row_length [of _ s] show ?thesis
    by blast
qed

theorem build_bitmap_shape_witness:
  "length (build_bitmap ''Hi'') = 7 \<and>
   map length (build_bitmap ''Hi'') = [9, 9, 9, 9, 9, 9, 9] \<and>
   build_bitmap ''Hi'' ! 0 = ''000000000''"
proof -
  have e: "build_bitmap ''Hi'' =
      [''000000000'', ''100101110'', ''100100100'', ''111100100'', ''100100100'',
       ''100101110'', ''000000000'']"
    by code_simp
  from build_bitmap_shape [of "''Hi''"] show ?thesis
    unfolding e by simp
qed

text \<open>
  Claim C2. For every input string, each row of the bitmap has length at most 52, and
  the bitmap consists of whole glyphs: below the zero row, row \<open>i + 1\<close> is the
  concatenation of row \<open>i\<close> of the glyphs (each with its spacing column) of the supported
  characters among the first \<open>j\<close> characters of the lowercased input, for some \<open>j\<close>.
  The width test comes before the appending: a glyph that would exceed 52 columns ends
  the loop with the rows and the width as they were.
\<close>

theorem build_bitmap_width_whole_glyphs:
  "(\<forall>r \<in> set (build_bitmap s). length r \<le> 52) \<and>
   (\<exists>j. j \<le> length s \<and>
      build_bitmap s =
        replicate (length (build_bitmap s ! 0)) CHR ''0'' #
        map (\<lambda>i. concat (map (glyph_row i) (take j (lower s)))) [0..<6]) \<and>
   (CHAR_MAP c = Some g \<longrightarrow> 52 < tw + (length (g ! 0) + 1) \<longrightarrow>
      loop_body c (rows, tw) = Break \<and>
      for_loop k (c # rest) (rows, tw) = ((rows, tw), Some k))"
proof -
  obtain j where j: "j \<le> length s" and b: "build_bitmap s =
       replicate (length (concat (map (glyph_row 0) (take j (lower s))))) CHR ''0'' #
       map (\<lambda>i. concat (map (glyph_row i) (take j (lower s)))) [0..<6]"
    by (rule build_bitmap_columns)
  let ?f = "\<lambda>i. concat (map (glyph_row i) (take j (lower s)))"
  have z: "length (build_bitmap s ! 0) = length (?f 0)"
    unfolding b by simp
  have "build_bitmap s =
      replicate (length (build_bitmap s ! 0)) CHR ''0'' # map ?f [0..<6]"
    unfolding z by (rule b)
  moreover have "loop_body c (rows, tw) = Break \<and>
      for_loop k (c # rest) (rows, tw) = ((rows, tw), Some k)"
    if "CHAR_MAP c = Some g" and "52 < tw + (length (g ! 0) + 1)"
    using loop_body_overflow [OF that] by simp
  ultimately show ?thesis
    using j build_bitmap_row_bound [of _ s] by blast
qed

theorem build_bitmap_width_whole_glyphs_witness:
  "list_all (\<lambda>r. length r \<le> 52) (build_bitmap ''mmmmmmmmmm'') \<and>
   CHAR_MAP CHR ''m'' = Some [''10001'', ''11011'', ''10101'', ''10001'', ''10001'', ''00000'', ''00000''] \<and>
   loop_body CHR ''m'' (replicate 7 (replicate 48 CHR ''0''), 48) = Break \<and>
   for_loop 8 ''mm'' (replicate 7 (replicate 48 CHR ''0''), 48) =
     ((replicate 7 (replicate 48 CHR ''0''), 48), Some 8)"
proof -
  have m: "CHAR_MAP CHR ''m'' =
      Some [''10001'', ''11011'', ''10101'', ''10001'', ''10001'', ''00000'', ''00000'']"
    by code_simp
  from build_bitmap_width_whole_glyphs [of "''mmmmmmmmmm''" "CHR ''m''"
      "[''10001'', ''11011'', ''10101'', ''10001'', ''10001'', ''00000'', ''00000'']"
      48 "replicate 7 (replicate 48 CHR ''0'')" 8 "''m''"]
  show ?thesis
    unfolding list_all_iff using m by simp
qed

text \<open>
  Claim C3. \<open>build_bitmap("1")\<close> is the 7-row bitmap of width 4 with row 0 \<open>0000\<close>, rows 1
  to 5 the glyph rows of \<open>1\<close> with one trailing \<open>0\<close>, and row 6 \<open>0000\<close>.
\<close>

theorem build_bitmap_one:
  "build_bitmap ''1'' = [''0000'', ''0100'', ''1100'', ''0100'', ''0100'', ''1110'', ''0000''] \<and>
   CHAR_MAP CHR ''1'' = Some [''010'', ''110'', ''010'', ''010'', ''111'', ''000'', ''000'']"
  by code_simp

text \<open>
  Claim C5. \<open>build_bitmap("a#b")\<close> is \<open>build_bitmap("ab")\<close>. In the loop, a character
  without a glyph leaves rows and width as they are, does not take the \<open>break\<close>, and the
  loop goes on with the next character.
\<close>

theorem unsupported_character_skipped:
  "build_bitmap ''a#b'' = build_bitmap ''ab'' \<and>
   CHAR_MAP CHR ''#'' = None \<and>
   (CHAR_MAP c = None \<longrightarrow>
      loop_body c st = Next st \<and> for_loop k (c # rest) st = for_loop (Suc k) rest st)"
proof -
  have "build_bitmap ''a#b'' = build_bitmap ''ab''"
    by code_simp
  moreover have "CHAR_MAP CHR ''#'' = None"
    by code_simp
  moreover have "loop_body c st = Next st \<and> for_loop k (c # rest) st = for_loop (Suc k) rest st"
    if "CHAR_MAP c = None"
    using loop_body_unsupported [OF that] by simp
  ultimately show ?thesis by blast
qed

theorem unsupported_character_skipped_witness:
  "CHAR_MAP CHR ''#'' = None \<and>
   loop_body CHR ''#'' ([''01100'', ''10010'', ''11110'', ''10010'', ''10010'', ''00000'', ''00000''], 5) =
     Next ([''01100'', ''10010'', ''11110'', ''10010'', ''10010'', ''00000'', ''00000''], 5) \<and>
   for_loop 1 ''#b'' ([''01100'', ''10010'', ''11110'', ''10010'', ''10010'', ''00000'', ''00000''], 5) =
     for_loop 2 ''b'' ([''01100'', ''10010'', ''11110'', ''10010'', ''10010'', ''00000'', ''00000''], 5)"
  using unsupported_character_skipped [of "CHR ''#''"
      "([''01100'', ''10010'', ''11110'', ''10010'', ''10010'', ''00000'', ''00000''], 5)" 1 "''b''"]
  by (simp del: for_loop.simps add: numeral_2_eq_2)

text \<open>
  Claim C6. If the loop of \<open>build_bitmap(text)\<close> takes the \<open>break\<close> at the character of
  index \<open>k\<close>, then \<open>build_bitmap(text[:k])\<close> is the bitmap \<open>build_bitmap(text)\<close>.
\<close>

theorem truncation_prefix:
  assumes "truncated_at s = Some k"
  shows "build_bitmap (take k s) = build_bitmap s"
proof -
  let ?t = "take 10 (lower s)"
  let ?init = "(replicate 7 '''', 0::nat)"
  obtain st where run: "for_loop 0 ?t ?init = (st, Some k)"
    using assms unfolding truncated_at_def accumulate_for_loop
    by (cases "for_loop 0 ?t ?init") simp
  note brk = for_loop_break_prefix [OF run]
  from brk have k: "k < length ?t"
    by simp
  from brk have "for_loop 0 (take (k - 0) ?t) ?init = (st, None)"
    by blast
  then have pre: "for_loop 0 (take k ?t) ?init = (st, None)"
    by (simp only: diff_zero)
  from k have k10: "min 10 k = k" and k10': "min k 10 = k" by simp_all
  have "take 10 (lower (take k s)) = take 10 (take k (lower s))"
    by (simp only: take_lower)
  also have "\<dots> = take k (lower s)"
    by (simp only: take_take k10)
  also have "\<dots> = take k ?t"
    by (simp only: take_take k10')
  finally have "take 10 (lower (take k s)) = take k ?t" .
  then have "accumulate (take k s) = (st, None)"
    using pre by (simp only: accumulate_for_loop)
  moreover have "accumulate s = (st, Some k)"
    using run by (simp only: accumulate_for_loop)
  ultimately show ?thesis
    by (simp add: build_bitmap_def)
qed

theorem truncation_prefix_witness:
  "truncated_at ''mmmmmmmmmm'' = Some 8 \<and>
   build_bitmap ''mmmmmmmm'' = build_bitmap ''mmmmmmmmmm''"
proof -
  have t: "truncated_at ''mmmmmmmmmm'' = Some 8"
    by code_simp
  from truncation_prefix [OF t] t show ?thesis by simp
qed

text \<open>
  Claim C10. For every input string, row 6 of the bitmap consists of \<open>0\<close> characters
  only, as row 0 does, so that every \<open>1\<close> lies in rows 1 to 5: the row 6 returned is the
  accumulated row 5, and rows 5 and 6 of every glyph of \<open>CHAR_MAP\<close> are zero.
\<close>

theorem build_bitmap_last_row_zero:
  "set (build_bitmap s ! 6) \<subseteq> {CHR ''0''} \<and>
   set (build_bitmap s ! 0) \<subseteq> {CHR ''0''} \<and>
   build_bitmap s ! 6 = fst (fst (accumulate s)) ! 5 \<and>
   (CHAR_MAP c = Some g \<longrightarrow> set (g ! 5) \<subseteq> {CHR ''0''} \<and> set (g ! 6) \<subseteq> {CHR ''0''})"
proof -
  obtain j where a: "fst (fst (accumulate s)) =
       map (\<lambda>i. concat (map (glyph_row i) (take j (lower s)))) [0..<7]"
    and b: "build_bitmap s =
       replicate (length (concat (map (glyph_row 0) (take j (lower s))))) CHR ''0'' #
       map (\<lambda>i. concat (map (glyph_row i) (take j (lower s)))) [0..<6]"
    by (rule build_bitmap_columns)
  let ?f = "\<lambda>i. concat (map (glyph_row i) (take j (lower s)))"
  have "build_bitmap s ! 6 = map ?f [0..<6] ! 5"
    unfolding b by simp
  also have "\<dots> = ?f 5"
    by (rule nth_map_upt0) simp
  finally have r6: "build_bitmap s ! 6 = ?f 5" .
  have a5: "fst (fst (accumulate s)) ! 5 = ?f 5"
    unfolding a by (rule nth_7) simp
  have "set (build_bitmap s ! 6) \<subseteq> {CHR ''0''}"
    unfolding r6 by (rule glyph_cols_5_zero)
  moreover have "set (build_bitmap s ! 0) \<subseteq> {CHR ''0''}"
    unfolding b by (simp add: set_replicate_conv_if)
  moreover have "build_bitmap s ! 6 = fst (fst (accumulate s)) ! 5"
    unfolding r6 a5 ..
  moreover have "set (g ! 5) \<subseteq> {CHR ''0''} \<and> set (g ! 6) \<subseteq> {CHR ''0''}"
    if "CHAR_MAP c = Some g"
    using CHAR_MAP_glyph(6,7) [OF that] by simp
  ultimately show ?thesis by blast
qed

theorem build_bitmap_last_row_zero_witness:
  "build_bitmap ''Hi'' ! 6 = ''000000000'' \<and>
   CHAR_MAP CHR ''t'' = Some [''11111'', ''00100'', ''00100'', ''00100'', ''00100'', ''00000'', ''00000''] \<and>
   set ''00000'' \<subseteq> {CHR ''0''}"
proof -
  have e: "build_bitmap ''Hi'' =
      [''000000000'', ''100101110'', ''100100100'', ''111100100'', ''100100100'',
       ''100101110'', ''000000000'']"
    by code_simp
  have t: "CHAR_MAP CHR ''t'' =
      Some [''11111'', ''00100'', ''00100'', ''00100'', ''00100'', ''00000'', ''00000'']"
    by code_simp
  from build_bitmap_last_row_zero [of "''Hi''" "CHR ''t''"
      "[''11111'', ''00100'', ''00100'', ''00100'', ''00100'', ''00000'', ''00000'']"] t
  show ?thesis
    unfolding e by simp
qed

text \<open>
  Claim C4, as stated: for every input string, \<open>build_bitmap\<close> returns the bitmap of the
  variant without the cut to \<open>get_max_chars()\<close> characters. This fails: eleven
  characters \<open>1\<close> are 44 columns wide for the width test, and the cut keeps ten of them.
\<close>

theorem pre_truncation_counterexample:
  "build_bitmap ''11111111111'' \<noteq> build_bitmap_single_check ''11111111111''"
  by code_simp

text \<open>
  Claim C4, amended. For every input string, \<open>build_bitmap\<close> returns what the loop with
  the width test alone makes of the first 10 characters of the lowercased input. It
  returns the bitmap of the variant without the cut whenever the lowercased input has at
  most 10 characters, and whenever its own loop ends at the width test. On every input
  each row of \<open>build_bitmap\<close> is a prefix of the same row of the variant: the cut can
  only take glyphs away at the end.
\<close>

theorem pre_truncation_lowered_first_ten:
  "build_bitmap s = single_check_lowered (take 10 (lower s)) \<and>
   (length (lower s) \<le> 10 \<longrightarrow> build_bitmap s = build_bitmap_single_check s) \<and>
   (truncated_at s = Some k \<longrightarrow> build_bitmap s = build_bitmap_single_check s) \<and>
   (i < 7 \<longrightarrow> prefix (build_bitmap s ! i) (build_bitmap_single_check s ! i))"
proof -
  have "build_bitmap s = single_check_lowered (take 10 (lower s))"
    by (simp only: build_bitmap_def single_check_lowered_def accumulate_for_loop)
  with build_bitmap_short_single_check [of s] build_bitmap_break_single_check [of s k]
    build_bitmap_prefix_single_check [of i s]
  show ?thesis by blast
qed

theorem pre_truncation_lowered_first_ten_witness:
  "build_bitmap ''11111111111'' = single_check_lowered ''1111111111'' \<and>
   length (lower ''Hi'') \<le> 10 \<and>
   build_bitmap ''Hi'' = build_bitmap_single_check ''Hi'' \<and>
   truncated_at ''mmmmmmmmmm'' = Some 8 \<and>
   build_bitmap ''mmmmmmmmmm'' = build_bitmap_single_check ''mmmmmmmmmm'' \<and>
   (1::nat) < 7 \<and>
   prefix (build_bitmap ''11111111111'' ! 1) (build_bitmap_single_check ''11111111111'' ! 1)"
proof -
  note e = pre_truncation_lowered_first_ten [of "''11111111111''" 0 1]
    and h = pre_truncation_lowered_first_ten [of "''Hi''" 0 1]
    and m = pre_truncation_lowered_first_ten [of "''mmmmmmmmmm''" 8 1]
  have t: "take 10 (lower ''11111111111'') = ''1111111111''"
    by code_simp
  have l: "length (lower ''Hi'') \<le> 10"
    by code_simp
  have b: "truncated_at ''mmmmmmmmmm'' = Some 8"
    by code_simp
  have i: "(1::nat) < 7"
    by simp
  from e have "build_bitmap ''11111111111'' =
      single_check_lowered (take 10 (lower ''11111111111''))"
    by blast
  then have a: "build_bitmap ''11111111111'' = single_check_lowered ''1111111111''"
    unfolding t .
  from h l have c: "build_bitmap ''Hi'' = build_bitmap_single_check ''Hi''"
    by blast
  from m b have d: "build_bitmap ''mmmmmmmmmm'' = build_bitmap_single_check ''mmmmmmmmmm''"
    by blast
  from e i have p: "prefix (build_bitmap ''11111111111'' ! 1)
      (build_bitmap_single_check ''11111111111'' ! 1)"
    by blast
  from a l c b d i p show ?thesis by blast
qed

section \<open>The dates of the commits\<close>

text \<open>
  Claim C7. For every year, the anchor computed by \<open>write_string_to_git\<close> is the first
  Sunday on or after January 1 of that year: it is a Sunday, it is not before January 1,
  and no Sunday from January 1 on is before it. For a year that passes the validation,
  in a git repository, \<open>generate_commit\<close> is called for the dates anchor +
  (column * 7 + row) of the cells holding \<open>1\<close>, column by column. For 2024 the anchor
  is January 7 (January 1 plus 6 days), cell (row 0, column 0) is mapped to the anchor and
  cell (row 6, column 1) to the anchor plus 13 days.
\<close>

theorem anchor_and_cell_dates:
  "weekday (first_sunday (january_first year)) = 6 \<and>
   january_first year \<le> first_sunday (january_first year) \<and>
   (january_first year \<le> d' \<and> weekday d' = 6 \<longrightarrow> first_sunday (january_first year) \<le> d') \<and>
   (2000 \<le> year \<and> year \<le> 2100 \<longrightarrow>
      fst (write_string_to_git True gc s year) =
        [first_sunday (january_first year) + int (col * 7 + row).
           col \<leftarrow> [0..<length (build_bitmap s ! 0)], row \<leftarrow> [0..<7],
           build_bitmap s ! row ! col = CHR ''1'']) \<and>
   first_sunday (january_first 2024) = january_first 2024 + 6 \<and>
   commit_date (first_sunday (january_first 2024)) 0 0 = first_sunday (january_first 2024) \<and>
   commit_date (first_sunday (january_first 2024)) 6 1 = first_sunday (january_first 2024) + 13"
proof -
  have "first_sunday (january_first 2024) = january_first 2024 + 6"
    by code_simp
  moreover have "commit_date a 0 0 = a" and "commit_date a 6 1 = a + 13" for a
    by (simp_all add: commit_date_def)
  ultimately show ?thesis
    using first_sunday_is_sunday [of "january_first year"]
      first_sunday_bounds [of "january_first year"]
      first_sunday_least [of "january_first year" d']
      write_string_to_git_attempted [of year gc s]
    by blast
qed

theorem anchor_and_cell_dates_witness:
  "january_first 2024 \<le> 738899 \<and> weekday 738899 = 6 \<and>
   first_sunday (january_first 2024) \<le> 738899 \<and>
   (2000::int) \<le> 2024 \<and> (2024::int) \<le> 2100 \<and>
   fst (write_string_to_git True (\<lambda>d. True) ''1'' 2024) =
     [first_sunday (january_first 2024) + int (col * 7 + row).
        col \<leftarrow> [0..<length (build_bitmap ''1'' ! 0)], row \<leftarrow> [0..<7],
        build_bitmap ''1'' ! row ! col = CHR ''1''] \<and>
   fst (write_string_to_git True (\<lambda>d. True) ''1'' 2024) =
     [738894, 738897, 738900, 738901, 738902, 738903, 738904, 738911]"
proof -
  have h: "january_first 2024 \<le> 738899 \<and> weekday 738899 = 6"
    by code_simp
  have y: "(2000::int) \<le> 2024 \<and> (2024::int) \<le> 2100"
    by simp
  have v: "fst (write_string_to_git True (\<lambda>d. True) ''1'' 2024) =
     [738894, 738897, 738900, 738901, 738902, 738903, 738904, 738911]"
    by code_simp
  from anchor_and_cell_dates [of 2024 738899 "\<lambda>d. True" "''1''"] h y v
  show ?thesis by blast
qed

section \<open>Fatal errors\<close>

text \<open>
  Claim C8. \<open>write_string_to_git\<close> treats a year outside 2000 to 2100 as fatal: it exits
  with status 1 and \<open>generate_commit\<close> has not been called. Every year from 2000 to 2100
  passes this validation: the run does not end with the message about the year, and in a
  git repository it runs to completion.
\<close>

theorem year_validation:
  "(year < 2000 \<or> 2100 < year \<longrightarrow>
      write_string_to_git git gc s year = ([], SysExit 1 (UnusualYear year))) \<and>
   (2000 \<le> year \<and> year \<le> 2100 \<longrightarrow>
      (\<forall>n y. snd (write_string_to_git git gc s year) \<noteq> SysExit n (UnusualYear y)) \<and>
      (\<exists>n m. snd (write_string_to_git True gc s year) = Completed n m))"
proof -
  let ?e = "emit_all gc (build_bitmap s) (first_sunday (january_first year))"
  obtain a n m where e: "?e = (a, n, m)" by (cases ?e)
  have "write_string_to_git git gc s year = ([], SysExit 1 (UnusualYear year))"
    if "year < 2000 \<or> 2100 < year"
    using that by (simp add: write_string_to_git_def)
  moreover have "snd (write_string_to_git git gc s year) \<noteq> SysExit k (UnusualYear y)"
    if "2000 \<le> year \<and> year \<le> 2100" for k y
    using that by (simp add: write_string_to_git_def Let_def e)
  moreover have "\<exists>n m. snd (write_string_to_git True gc s year) = Completed n m"
    if "2000 \<le> year \<and> year \<le> 2100"
    using that by (simp add: write_string_to_git_def Let_def e)
  ultimately show ?thesis by blast
qed

theorem year_validation_witness:
  "(1999::int) < 2000 \<and>
   write_string_to_git True (\<lambda>d. True) ''hi'' 1999 = ([], SysExit 1 (UnusualYear 1999)) \<and>
   (2100::int) < 2101 \<and>
   write_string_to_git True (\<lambda>d. True) ''hi'' 2101 = ([], SysExit 1 (UnusualYear 2101)) \<and>
   (2000::int) \<le> 2000 \<and> (2000::int) \<le> 2100 \<and>
   snd (write_string_to_git True (\<lambda>d. True) ''hi'' 2000) \<noteq> SysExit 1 (UnusualYear 2000) \<and>
   snd (write_string_to_git True (\<lambda>d. True) ''hi'' 2100) = Completed 21 0"
proof -
  have v: "snd (write_string_to_git True (\<lambda>d. True) ''hi'' 2100) = Completed 21 0"
    by code_simp
  from year_validation [of 1999 True "\<lambda>d. True" "''hi''"]
    year_validation [of 2101 True "\<lambda>d. True" "''hi''"]
    year_validation [of 2000 True "\<lambda>d. True" "''hi''"] v
  show ?thesis by simp
qed

text \<open>
  Claim C9. If the input produces zero columns, \<open>build_bitmap\<close> returns seven rows of
  length 0, and the caller exits with status 1 without a call of \<open>generate_commit\<close>.
  The empty string produces zero columns, and so does an input whose first 10
  characters have no glyph.
\<close>

theorem empty_result:
  "build_bitmap '''' = replicate 7 '''' \<and>
   (list_all (\<lambda>c. CHAR_MAP c = None) (take 10 (lower s)) \<longrightarrow> length (build_bitmap s ! 0) = 0) \<and>
   (length (build_bitmap s ! 0) = 0 \<longrightarrow>
      build_bitmap s = replicate 7 '''' \<and>
      main git gc s year preview = ([], SysExit 1 NoValidCharacters))"
proof -
  have "build_bitmap '''' = replicate 7 ''''"
    by code_simp
  moreover have "length (build_bitmap s ! 0) = 0"
    if "list_all (\<lambda>c. CHAR_MAP c = None) (take 10 (lower s))"
  proof -
    have skip: "for_loop k t st = (st, None)" if "list_all (\<lambda>c. CHAR_MAP c = None) t" for k t st
      using that
    proof (induction t arbitrary: k)
      case Nil
      show ?case by simp
    next
      case (Cons c t)
      then have "CHAR_MAP c = None" and "list_all (\<lambda>c. CHAR_MAP c = None) t"
        by simp_all
      with Cons.IH show ?case
        by (simp add: loop_body_unsupported)
    qed
    from skip [OF that] have "accumulate s = ((replicate 7 '''', 0), None)"
      by (simp only: accumulate_for_loop)
    then show ?thesis
      by (simp add: build_bitmap_def shift_down_def)
  qed
  moreover have "build_bitmap s = replicate 7 '''' \<and>
      main git gc s year preview = ([], SysExit 1 NoValidCharacters)"
    if "length (build_bitmap s ! 0) = 0"
  proof -
    from that have b: "build_bitmap s = replicate 7 ''''"
      by (rule build_bitmap_empty)
    have ne: "list_ex (\<lambda>row. row \<noteq> []) (build_bitmap s) = False"
      unfolding b by (simp add: list_ex_iff)
    have "main git gc s year preview = ([], SysExit 1 NoValidCharacters)"
      unfolding main_def Let_def ne by simp
    with b show ?thesis by simp
  qed
  ultimately show ?thesis by blast
qed

theorem empty_result_witness:
  "list_all (\<lambda>c. CHAR_MAP c = None) (take 10 (lower ''?!'')) \<and>
   length (build_bitmap ''?!'' ! 0) = 0 \<and>
   build_bitmap ''?!'' = replicate 7 '''' \<and>
   main True (\<lambda>d. True) ''?!'' 2024 False = ([], SysExit 1 NoValidCharacters)"
proof -
  have h: "list_all (\<lambda>c. CHAR_MAP c = None) (take 10 (lower ''?!''))"
    by code_simp
  from empty_result [of "''?!''" True "\<lambda>d. True" 2024 False] h
  show ?thesis by blast
qed

end
